theory Spec2Isabelle
  imports Complex_Main "HOL-Library.Multiset"
begin

section \<open>API client (services/api.js)\<close>

subsection \<open>Errors raised by a request\<close>

text \<open>
  A failed request rejects with an error object whose \<^verbatim>\<open>response\<close> is absent for a
  transport failure (timeout, connection reset) and otherwise carries the HTTP status and
  the body. Of the body only the fields that \<^verbatim>\<open>parseError\<close> reads are kept; of each
  entry of \<^verbatim>\<open>validation_errors\<close> only its \<^verbatim>\<open>message\<close>.
\<close>

record response_data =
  data_error :: "string option"
  data_detail :: "string option"
  data_error_code :: "string option"
  data_validation_errors :: "string list option"

record http_response =
  status :: nat
  data :: "response_data option"

record request_error =
  response :: "http_response option"

datatype error_details = NoDetails | Body response_data | ValidationErrors "string list"

text \<open>The class \<^verbatim>\<open>APIError\<close>: message, status, code, details.\<close>

record APIError =
  message :: string
  api_status :: nat
  code :: string
  details :: error_details

text \<open>JavaScript truthiness of an optional string: present and not empty.\<close>

definition truthy :: "string option \<Rightarrow> bool" where
  "truthy s = (case s of None \<Rightarrow> False | Some v \<Rightarrow> v \<noteq> [])"

text \<open>\<^verbatim>\<open>a || b\<close> on strings, with a default for the case that neither is truthy.\<close>

definition or_else :: "string option \<Rightarrow> string \<Rightarrow> string" where
  "or_else s d = (case s of None \<Rightarrow> d | Some v \<Rightarrow> if v = [] then d else v)"

text \<open>Decimal rendering of a non-negative integer, as a template literal prints it.\<close>

definition digit_char :: "nat \<Rightarrow> char" where
  "digit_char n = char_of (48 + n)"

function show_nat :: "nat \<Rightarrow> string" where
  "show_nat n = (if n < 10 then [digit_char n] else show_nat (n div 10) @ [digit_char (n mod 10)])"
  by pat_completeness auto
termination
  by (relation "measure (\<lambda>n. n)") auto

declare show_nat.simps [simp del]

text \<open>\<^verbatim>\<open>Array.prototype.join(', ')\<close>.\<close>

fun join_comma :: "string list \<Rightarrow> string" where
  "join_comma [] = []"
| "join_comma [x] = x"
| "join_comma (x # y # ys) = x @ '', '' @ join_comma (y # ys)"

definition parseError :: "request_error \<Rightarrow> APIError" where
  "parseError error =
     (case response error of
        None \<Rightarrow>
          \<lparr>message = ''Network error. Please check your connection and try again.'',
           api_status = 0, code = ''NETWORK_ERROR'', details = NoDetails\<rparr>
      | Some r \<Rightarrow>
          (case data r of
             None \<Rightarrow>
               \<lparr>message = (if status r \<ge> 500 then ''Server error. Please try again later.''
                            else ''Request failed with status '' @ show_nat (status r)),
                api_status = status r, code = ''HTTP_ERROR'', details = NoDetails\<rparr>
           | Some d \<Rightarrow>
               if truthy (data_error d) then
                 \<lparr>message = or_else (data_detail d) (or_else (data_error d) []),
                  api_status = status r,
                  code = or_else (data_error_code d) ''API_ERROR'',
                  details = Body d\<rparr>
               else (case data_validation_errors d of
                  Some errs \<Rightarrow>
                    \<lparr>message = ''Validation error: '' @ join_comma errs,
                     api_status = status r, code = ''VALIDATION_ERROR'',
                     details = ValidationErrors errs\<rparr>
                | None \<Rightarrow>
                    \<lparr>message = (if status r \<ge> 500 then ''Server error. Please try again later.''
                                 else or_else (data_detail d)
                                        (''Request failed with status '' @ show_nat (status r))),
                     api_status = status r, code = ''HTTP_ERROR'', details = NoDetails\<rparr>)))"

text \<open>
  \<^verbatim>\<open>isRetryableError\<close> reads \<^verbatim>\<open>error.status\<close>; a status of 0 (what
  \<^verbatim>\<open>parseError\<close> gives a transport failure) is falsy.
\<close>

definition isRetryableError :: "APIError \<Rightarrow> bool" where
  "isRetryableError error =
     (if api_status error = 0 then True
      else api_status error \<ge> 500 \<or> api_status error = 429)"

subsection \<open>The retry wrapper\<close>

text \<open>
  \<^verbatim>\<open>withRetry(fn, maxRetries, baseDelay)\<close> calls the thunk \<^verbatim>\<open>fn\<close> up to
  \<^verbatim>\<open>maxRetries + 1\<close> times, one call after the other. The thunk is modelled by the
  outcome of each of its calls: \<open>fn k\<close> is what call number \<open>k\<close> (from 0) settles to.
  The calls made and the delays slept are logged in order; the delay is in milliseconds.
\<close>

datatype 'a attempt_outcome = Resolved 'a | Rejected request_error

datatype action = Call nat | Sleep nat

datatype 'a completion = Returned 'a | Thrown "request_error option"

definition maxRetries_default :: nat where
  "maxRetries_default = 3"

definition retryDelay_default :: nat where
  "retryDelay_default = 1000"

text \<open>
  The test of the \<^verbatim>\<open>catch\<close> block:
  \<^verbatim>\<open>error.response?.status >= 400 && error.response?.status < 500 && error.response?.status !== 429\<close>.
\<close>

definition client_error :: "request_error \<Rightarrow> bool" where
  "client_error error =
     (case response error of
        None \<Rightarrow> False
      | Some r \<Rightarrow> status r \<ge> 400 \<and> status r < 500 \<and> status r \<noteq> 429)"

function withRetry_loop ::
  "(nat \<Rightarrow> 'a attempt_outcome) \<Rightarrow> nat \<Rightarrow> nat \<Rightarrow> nat \<Rightarrow> request_error option \<Rightarrow> action list
     \<Rightarrow> 'a completion \<times> action list" where
  "withRetry_loop fn maxRetries baseDelay attempt lastError acts =
     (if attempt \<le> maxRetries then
        (case fn attempt of
           Resolved v \<Rightarrow> (Returned v, acts @ [Call attempt])
         | Rejected error \<Rightarrow>
             if client_error error then (Thrown (Some error), acts @ [Call attempt])
             else if attempt = maxRetries then (Thrown (Some error), acts @ [Call attempt])
             else withRetry_loop fn maxRetries baseDelay (attempt + 1) (Some error)
                    (acts @ [Call attempt, Sleep (baseDelay * 2 ^ attempt)]))
      else (Thrown lastError, acts))"
  by pat_completeness auto
termination
  by (relation "measure (\<lambda>(fn, maxRetries, baseDelay, attempt, lastError, acts). Suc maxRetries - attempt)")
     auto

declare withRetry_loop.simps [simp del]

definition withRetry ::
  "(nat \<Rightarrow> 'a attempt_outcome) \<Rightarrow> nat \<Rightarrow> nat \<Rightarrow> 'a completion \<times> action list" where
  "withRetry fn maxRetries baseDelay = withRetry_loop fn maxRetries baseDelay 0 None []"

subsection \<open>Analysing one image\<close>

text \<open>
  \<^verbatim>\<open>analyzeImage\<close> posts the file through \<^verbatim>\<open>withRetry\<close> with the default
  parameters and turns a thrown error into a failure value with \<^verbatim>\<open>parseError\<close>.
  Were \<^verbatim>\<open>withRetry\<close> to throw \<^verbatim>\<open>undefined\<close>, \<^verbatim>\<open>parseError\<close> would
  throw in turn and the promise would reject: that is \<open>Crashed\<close>.
\<close>

datatype 'd analysis = Success 'd | Failure string string error_details

datatype 'd settled = Fulfilled "'d analysis" | Crashed

definition analyzeImage :: "(nat \<Rightarrow> 'd attempt_outcome) \<Rightarrow> 'd settled \<times> action list" where
  "analyzeImage fn =
     (case withRetry fn maxRetries_default retryDelay_default of
        (Returned d, acts) \<Rightarrow> (Fulfilled (Success d), acts)
      | (Thrown (Some error), acts) \<Rightarrow>
          (let apiError = parseError error
           in (Fulfilled (Failure (message apiError) (code apiError) (details apiError)), acts))
      | (Thrown None, acts) \<Rightarrow> (Crashed, acts))"


text \<open>
  The failures that the retry policy is meant to repeat: no response at all, status 429,
  or a status of 500 and above.
\<close>

definition retryable_failure :: "request_error \<Rightarrow> bool" where
  "retryable_failure error =
     (case response error of None \<Rightarrow> True | Some r \<Rightarrow> status r = 429 \<or> status r \<ge> 500)"

text \<open>The calls \<open>lo, \<dots>, hi - 1\<close>, each followed by its exponential delay.\<close>

definition backoff :: "nat \<Rightarrow> nat \<Rightarrow> nat \<Rightarrow> action list" where
  "backoff baseDelay lo hi = concat (map (\<lambda>k. [Call k, Sleep (baseDelay * 2 ^ k)]) [lo..<hi])"

subsection \<open>Client-side file validation\<close>

text \<open>
  A \<^verbatim>\<open>File\<close> has a name, a MIME type and a size in bytes. Strings are sequences of
  code units below 256 (Latin-1); \<^verbatim>\<open>toLowerCase\<close> and \<^verbatim>\<open>trim\<close> are the
  JavaScript functions on that range.
\<close>

record File =
  file_name :: string
  file_type :: string
  file_size :: nat

definition toLowerCase_char :: "char \<Rightarrow> char" where
  "toLowerCase_char c =
     (let n = (of_char c :: nat)
      in if (65 \<le> n \<and> n \<le> 90) \<or> (192 \<le> n \<and> n \<le> 222 \<and> n \<noteq> 215)
         then char_of (n + 32) else c)"

definition toLowerCase :: "string \<Rightarrow> string" where
  "toLowerCase s = map toLowerCase_char s"

definition white_space :: "char \<Rightarrow> bool" where
  "white_space c = ((of_char c :: nat) \<in> set [9, 10, 11, 12, 13, 32, 160])"

definition trim :: "string \<Rightarrow> string" where
  "trim s = rev (dropWhile white_space (rev (dropWhile white_space s)))"

definition allowedTypes :: "string list" where
  "allowedTypes = [''image/jpeg'', ''image/jpg'', ''image/png'', ''image/webp'']"

definition maxSize :: nat where
  "maxSize = 10 * 1024 * 1024"

text \<open>
  \<^verbatim>\<open>(size / 1024 / 1024).toFixed(1)\<close>: the division by \<open>2\<^sup>2\<^sup>0\<close> is exact, and
  \<^verbatim>\<open>toFixed(1)\<close> picks the integer \<open>n\<close> with \<open>n / 10\<close> nearest to it, the larger
  one on a tie.
\<close>

definition toFixed1_MB :: "nat \<Rightarrow> string" where
  "toFixed1_MB sz =
     (let n = (20 * sz + 2 ^ 20) div 2 ^ 21
      in show_nat (n div 10) @ ''.'' @ show_nat (n mod 10))"

record validation =
  valid :: bool
  verrors :: "string list"

definition validateFile :: "File \<Rightarrow> validation" where
  "validateFile file =
     (let errors = [];
          errors = (if toLowerCase (file_type file) \<notin> set allowedTypes
                    then errors @ [''Unsupported file type: '' @ file_type file
                                     @ ''. Use JPEG, PNG, or WebP.'']
                    else errors);
          errors = (if file_size file > maxSize
                    then errors @ [''File too large: '' @ toFixed1_MB (file_size file)
                                     @ ''MB. Maximum size is 10MB.'']
                    else errors);
          errors = (if file_name file = [] \<or> trim (file_name file) = []
                    then errors @ [''File must have a valid name.'']
                    else errors)
      in \<lparr>valid = (length errors = 0), verrors = errors\<rparr>)"

text \<open>The three conditions that \<^verbatim>\<open>validateFile\<close> is meant to check.\<close>

definition type_allowed :: "File \<Rightarrow> bool" where
  "type_allowed file = (toLowerCase (file_type file) \<in> set allowedTypes)"

definition size_allowed :: "File \<Rightarrow> bool" where
  "size_allowed file = (file_size file \<le> 10 * 1024 * 1024)"

definition name_allowed :: "File \<Rightarrow> bool" where
  "name_allowed file = (trim (file_name file) \<noteq> [])"

definition violations :: "File \<Rightarrow> nat" where
  "violations file =
     (if type_allowed file then 0 else 1) + (if size_allowed file then 0 else 1)
       + (if name_allowed file then 0 else 1)"


subsection \<open>Analysing a batch of images\<close>

text \<open>
  \<^verbatim>\<open>analyzeImages(files, onProgress, onImageComplete)\<close> cuts the files into chunks of
  \<^verbatim>\<open>CONCURRENT_LIMIT\<close>, starts every file of a chunk at once and awaits
  \<^verbatim>\<open>Promise.all\<close> of the chunk before it starts the next one.
\<close>

definition CONCURRENT_LIMIT :: nat where
  "CONCURRENT_LIMIT = 3"

text \<open>
  The loop \<^verbatim>\<open>for (let i = 0; i < files.length; i += CONCURRENT_LIMIT)\<close> that pushes
  \<^verbatim>\<open>files.slice(i, i + CONCURRENT_LIMIT)\<close>.
\<close>

function chunks_from :: "nat \<Rightarrow> 'a list \<Rightarrow> 'a list list" where
  "chunks_from i files =
     (if i < length files
      then take CONCURRENT_LIMIT (drop i files) # chunks_from (i + CONCURRENT_LIMIT) files
      else [])"
  by pat_completeness auto
termination
  by (relation "measure (\<lambda>(i, files). length files - i)") (auto simp: CONCURRENT_LIMIT_def)

declare chunks_from.simps [simp del]

text \<open>
  What is pushed to \<^verbatim>\<open>results\<close> or \<^verbatim>\<open>errors\<close> and handed to
  \<^verbatim>\<open>onImageComplete\<close>: \<^verbatim>\<open>{file, result, success: true}\<close> or
  \<^verbatim>\<open>{file, error, code, success: false}\<close>; the \<^verbatim>\<open>code\<close> is absent in the
  object built by the inner \<^verbatim>\<open>catch\<close>.
\<close>

datatype 'd report = ImageResult File 'd | ImageError File string "string option"

fun report_file :: "'d report \<Rightarrow> File" where
  "report_file (ImageResult f d) = f"
| "report_file (ImageError f e c) = f"

text \<open>
  The run is driven by the environment: an upload-progress event of the request of item
  \<open>i\<close> (with the percentage that \<^verbatim>\<open>analyzeImage\<close> passes on), or the settling of
  the promise \<^verbatim>\<open>analyzeImage(file)\<close> of item \<open>i\<close>. Items are named by their
  position in \<^verbatim>\<open>files\<close>.
\<close>

datatype 'd event = UploadProgress nat nat | Settled nat "'d settled"

text \<open>
  What the run does to the outside, in order: it calls \<^verbatim>\<open>analyzeImage\<close> for an
  item, it calls \<^verbatim>\<open>onProgress\<close> with a value (from the upload-progress handler or
  after a completion), it calls \<^verbatim>\<open>onImageComplete\<close>. The record of the latter also
  holds the item's position and the values of \<^verbatim>\<open>completed\<close>,
  \<^verbatim>\<open>results.length\<close> and \<^verbatim>\<open>errors.length\<close> at the moment of the call.
  Both callbacks are taken to return normally.
\<close>

datatype progress_source = FromUpload | FromCompletion

datatype 'd emitted =
    Started nat File
  | Progress progress_source int
  | ImageComplete nat "'d report" nat nat nat

record 'd batch =
  files :: "File list"
  chunks :: "File list list"
  started :: nat
  inflight :: "(nat \<times> File) list"
  completed :: nat
  results :: "'d report list"
  errors :: "'d report list"
  trace :: "'d emitted list"

text \<open>\<^verbatim>\<open>Math.round\<close>, on exact rationals.\<close>

definition Math_round :: "rat \<Rightarrow> int" where
  "Math_round x = \<lfloor>x + 1 / 2\<rfloor>"

text \<open>
  \<^verbatim>\<open>Math.round(((completed + (progress / 100)) / files.length) * 100)\<close> and
  \<^verbatim>\<open>Math.round((completed / files.length) * 100)\<close>.
\<close>

definition upload_overallProgress :: "nat \<Rightarrow> nat \<Rightarrow> nat \<Rightarrow> int" where
  "upload_overallProgress c progress n =
     Math_round (((of_nat c + of_nat progress / 100) / of_nat n) * 100)"

definition overallProgress :: "nat \<Rightarrow> nat \<Rightarrow> int" where
  "overallProgress c n = Math_round ((of_nat c / of_nat n) * 100)"

text \<open>
  The body of the \<^verbatim>\<open>for (const chunk of chunks)\<close> loop up to its \<^verbatim>\<open>await\<close>:
  \<^verbatim>\<open>chunk.map\<close> calls the asynchronous function of every file of the next chunk,
  each of which runs up to its call of \<^verbatim>\<open>analyzeImage\<close>. Every chunk built by
  \<^verbatim>\<open>chunks_from\<close> has a file in it.
\<close>

definition start_chunk :: "'d batch \<Rightarrow> 'd batch" where
  "start_chunk s =
     (case chunks s of
        [] \<Rightarrow> s
      | chunk # rest \<Rightarrow>
          (let items = zip [started s ..< started s + length chunk] chunk
           in s\<lparr>chunks := rest,
                started := started s + length chunk,
                inflight := items,
                trace := trace s @ map (\<lambda>(i, f). Started i f) items\<rparr>))"

definition begin_batch :: "File list \<Rightarrow> 'd batch" where
  "begin_batch fs =
     start_chunk \<lparr>files = fs, chunks = chunks_from 0 fs, started = 0, inflight = [],
                  completed = 0, results = [], errors = [], trace = []\<rparr>"

text \<open>
  The continuation of the asynchronous function of one file after
  \<^verbatim>\<open>await analyzeImage(\<dots>)\<close>: the \<^verbatim>\<open>try\<close> branch when the promise is fulfilled,
  the \<^verbatim>\<open>catch\<close> branch when it is rejected.
\<close>

definition settle :: "nat \<Rightarrow> File \<Rightarrow> 'd settled \<Rightarrow> 'd batch \<Rightarrow> 'd batch" where
  "settle i file outcome s =
     (let c = completed s + 1;
          n = length (files s)
      in case outcome of
           Fulfilled (Success d) \<Rightarrow>
             (let imageResult = ImageResult file d;
                  rs = results s @ [imageResult]
              in s\<lparr>completed := c, results := rs,
                   trace := trace s @ [ImageComplete i imageResult c (length rs) (length (errors s)),
                                       Progress FromCompletion (overallProgress c n)]\<rparr>)
         | Fulfilled (Failure err cd det) \<Rightarrow>
             (let error = ImageError file err (Some cd);
                  es = errors s @ [error]
              in s\<lparr>completed := c, errors := es,
                   trace := trace s @ [ImageComplete i error c (length (results s)) (length es),
                                       Progress FromCompletion (overallProgress c n)]\<rparr>)
         | Crashed \<Rightarrow>
             (let fileError = ImageError file ''Unexpected error during processing'' None;
                  es = errors s @ [fileError]
              in s\<lparr>completed := c, errors := es,
                   trace := trace s @ [ImageComplete i fileError c (length (results s)) (length es)]\<rparr>))"

fun step :: "'d batch \<Rightarrow> 'd event \<Rightarrow> 'd batch" where
  "step s (UploadProgress i progress) =
     (case map_of (inflight s) i of
        None \<Rightarrow> s
      | Some file \<Rightarrow>
          s\<lparr>trace := trace s @ [Progress FromUpload
                                   (upload_overallProgress (completed s) progress (length (files s)))]\<rparr>)"
| "step s (Settled i outcome) =
     (case map_of (inflight s) i of
        None \<Rightarrow> s
      | Some file \<Rightarrow>
          (let s' = settle i file outcome s;
               s'' = s'\<lparr>inflight := filter (\<lambda>p. fst p \<noteq> i) (inflight s')\<rparr>
           in if inflight s'' = [] then start_chunk s'' else s''))"

text \<open>The state of a call of \<^verbatim>\<open>analyzeImages\<close> after the given events.\<close>

definition analyzeImages :: "File list \<Rightarrow> 'd event list \<Rightarrow> 'd batch" where
  "analyzeImages fs evs = foldl step (begin_batch fs) evs"

record summary =
  total :: nat
  successful :: nat
  failed :: nat

record 'd batch_result =
  success :: bool
  res_results :: "'d report list"
  res_errors :: "'d report list"
  res_summary :: summary

text \<open>The value returned, once the last chunk has been awaited.\<close>

definition returned :: "'d batch \<Rightarrow> 'd batch_result option" where
  "returned s =
     (if inflight s = [] \<and> chunks s = []
      then Some \<lparr>success = (length (errors s) = 0), res_results = results s, res_errors = errors s,
                  res_summary = \<lparr>total = length (files s), successful = length (results s),
                                  failed = length (errors s)\<rparr>\<rparr>
      else None)"

text \<open>Readings of the trace.\<close>

fun progress_value :: "'d emitted \<Rightarrow> int list" where
  "progress_value (Progress src v) = [v]"
| "progress_value e = []"

fun completion_progress_value :: "'d emitted \<Rightarrow> int list" where
  "completion_progress_value (Progress FromCompletion v) = [v]"
| "completion_progress_value e = []"

fun completed_item :: "'d emitted \<Rightarrow> nat list" where
  "completed_item (ImageComplete i r c nr ne) = [i]"
| "completed_item e = []"

fun started_item :: "'d emitted \<Rightarrow> nat list" where
  "started_item (Started i f) = [i]"
| "started_item e = []"

fun seen_completed :: "'d emitted \<Rightarrow> nat list" where
  "seen_completed (ImageComplete i r c nr ne) = [c]"
| "seen_completed e = []"

fun consistent_callback :: "'d emitted \<Rightarrow> bool" where
  "consistent_callback (ImageComplete i r c nr ne) = (c = nr + ne \<and> 0 < c)"
| "consistent_callback e = True"

definition progress_values :: "'d emitted list \<Rightarrow> int list" where
  "progress_values tr = concat (map progress_value tr)"

definition completion_progress_values :: "'d emitted list \<Rightarrow> int list" where
  "completion_progress_values tr = concat (map completion_progress_value tr)"

definition completed_items :: "'d emitted list \<Rightarrow> nat list" where
  "completed_items tr = concat (map completed_item tr)"

definition started_items :: "'d emitted list \<Rightarrow> nat list" where
  "started_items tr = concat (map started_item tr)"

subsection \<open>Invariants of a batch run\<close>

text \<open>
  Scheduling: the chunks still to start are those from position \<open>started\<close> on; every
  item started is either completed or in flight; the number of items started is fixed by the
  number completed; no item is in flight twice.
\<close>

definition sched_inv :: "'d batch \<Rightarrow> bool" where
  "sched_inv s =
     (chunks s = chunks_from (started s) (files s)
      \<and> completed s + length (inflight s) = started s
      \<and> started s = min (length (files s))
                       (CONCURRENT_LIMIT * (completed s div CONCURRENT_LIMIT) + CONCURRENT_LIMIT)
      \<and> distinct (map fst (inflight s)))"

text \<open>The values of \<^verbatim>\<open>completed\<close> that the calls of \<^verbatim>\<open>onImageComplete\<close> saw.\<close>

definition seen_counts :: "'d emitted list \<Rightarrow> nat list" where
  "seen_counts tr = concat (map seen_completed tr)"

text \<open>
  Callbacks: the counter agrees with the two collections; no item has been reported twice,
  none that is still in flight has been reported, and every item started is reported or in
  flight; the items have been started in the order of \<^verbatim>\<open>files\<close>; the \<open>k\<close>-th call of
  \<^verbatim>\<open>onImageComplete\<close> saw \<^verbatim>\<open>completed = k\<close>.
\<close>

definition callback_inv :: "'d batch \<Rightarrow> bool" where
  "callback_inv s =
     (completed s = length (results s) + length (errors s)
      \<and> distinct (completed_items (trace s))
      \<and> set (completed_items (trace s)) \<inter> fst ` set (inflight s) = {}
      \<and> set (completed_items (trace s)) \<union> fst ` set (inflight s) = {0..<started s}
      \<and> started_items (trace s) = [0..<started s]
      \<and> seen_counts (trace s) = [1..<Suc (completed s)]
      \<and> list_all consistent_callback (trace s)
      \<and> length (completed_items (trace s)) = completed s)"

text \<open>
  Progress: the values reported after completions are in non-decreasing order and none
  exceeds the value for the current count.
\<close>

definition progress_inv :: "'d batch \<Rightarrow> bool" where
  "progress_inv s =
     (sorted (completion_progress_values (trace s))
      \<and> list_all (\<lambda>v. v \<le> overallProgress (completed s) (length (files s)))
            (completion_progress_values (trace s)))"

text \<open>
  A window of \<^verbatim>\<open>CONCURRENT_LIMIT\<close> that is refilled on every completion would, at every
  moment, be full or have no file left to start.
\<close>

definition window_full :: "'d batch \<Rightarrow> bool" where
  "window_full s = (length (inflight s) \<ge> CONCURRENT_LIMIT \<or> started s = length (files s))"

text \<open>Two batches for the examples.\<close>

definition five_files :: "File list" where
  "five_files = map (\<lambda>nm. \<lparr>file_name = nm, file_type = ''image/png'', file_size = 1024\<rparr>)
                  [''a.png'', ''b.png'', ''c.png'', ''d.png'', ''e.png'']"

definition two_files :: "File list" where
  "two_files = map (\<lambda>nm. \<lparr>file_name = nm, file_type = ''image/png'', file_size = 1024\<rparr>)
                  [''a.png'', ''b.png'']"

section \<open>Application state (App.js)\<close>

text \<open>
  The component keeps three pieces of state: \<^verbatim>\<open>images\<close> (the settled images, newest
  first), \<^verbatim>\<open>loadingImages\<close> and \<^verbatim>\<open>errorImages\<close> (an object from image id to
  message). A handler is modelled as one atomic update of them, as it runs without
  interruption and its state updates are applied before the next handler runs. The calls
  of \<^verbatim>\<open>URL.revokeObjectURL\<close> are logged in \<open>revoked\<close>, in order.
\<close>

record analysis_data =
  tags :: "(string \<times> rat) list"
  processing_time :: rat
  image_size :: "nat list"
  timestamp :: string
  model_info :: string

record metadata =
  md_processing_time :: rat
  md_image_size :: "nat list"
  md_timestamp :: string
  md_model_info :: string

record image =
  img_id :: string
  img_filename :: string
  img_previewUrl :: "string option"
  img_tags :: "(string \<times> rat) list"
  img_metadata :: "metadata option"

record loadingEntry =
  le_id :: string
  le_filename :: string
  le_previewUrl :: "string option"
  le_file :: File
  le_progress :: nat
  le_startTime :: nat

record store =
  images :: "image list"
  loadingImages :: "loadingEntry list"
  errorImages :: "string \<rightharpoonup> string"
  revoked :: "string list"

definition empty_store :: store where
  "empty_store = \<lparr>images = [], loadingImages = [], errorImages = Map.empty, revoked = []\<rparr>"

text \<open>
  The part of \<^verbatim>\<open>handleFilesSelected\<close> that creates the loading entries of the valid
  files and appends them to \<^verbatim>\<open>loadingImages\<close>. The ids come from
  \<^verbatim>\<open>generateImageId\<close> and the preview URLs from \<^verbatim>\<open>createImagePreview\<close>
  (\<open>None\<close> when it fails); both are given, one per file, together with the clock.
\<close>

definition make_loadingEntries ::
  "File list \<Rightarrow> string list \<Rightarrow> string option list \<Rightarrow> nat \<Rightarrow> loadingEntry list" where
  "make_loadingEntries validFiles ids previews now =
     map (\<lambda>(file, i, p). \<lparr>le_id = i, le_filename = file_name file, le_previewUrl = p,
                           le_file = file, le_progress = 0, le_startTime = now\<rparr>)
         (zip validFiles (zip ids previews))"

definition add_loadingEntries :: "loadingEntry list \<Rightarrow> store \<Rightarrow> store" where
  "add_loadingEntries loadingEntries s = s\<lparr>loadingImages := loadingImages s @ loadingEntries\<rparr>"

definition handleImageProcessingComplete ::
  "analysis_data report \<Rightarrow> loadingEntry list \<Rightarrow> store \<Rightarrow> store" where
  "handleImageProcessingComplete result loadingEntries s =
     (case find (\<lambda>entry. file_name (le_file entry) = file_name (report_file result)) loadingEntries of
        None \<Rightarrow> s
      | Some loadingEntry \<Rightarrow>
          (let s' = s\<lparr>loadingImages :=
                        filter (\<lambda>img. le_id img \<noteq> le_id loadingEntry) (loadingImages s)\<rparr>
           in case result of
                ImageResult file d \<Rightarrow>
                  (let processedImage =
                         \<lparr>img_id = le_id loadingEntry, img_filename = file_name file,
                          img_previewUrl = le_previewUrl loadingEntry, img_tags = tags d,
                          img_metadata = Some \<lparr>md_processing_time = processing_time d,
                                                md_image_size = image_size d,
                                                md_timestamp = timestamp d,
                                                md_model_info = model_info d\<rparr>\<rparr>
                   in s'\<lparr>images := processedImage # images s',
                         errorImages := (errorImages s')(le_id loadingEntry := None)\<rparr>)
              | ImageError file error cd \<Rightarrow>
                  (let errorImage =
                         \<lparr>img_id = le_id loadingEntry, img_filename = file_name file,
                          img_previewUrl = le_previewUrl loadingEntry, img_tags = [],
                          img_metadata = None\<rparr>
                   in s'\<lparr>errorImages := (errorImages s')(le_id loadingEntry \<mapsto> error),
                         images := errorImage # images s'\<rparr>)))"

definition handleRemoveImage :: "string \<Rightarrow> store \<Rightarrow> store" where
  "handleRemoveImage imageId s =
     (let rv = (case find (\<lambda>img. img_id img = imageId) (images s) of
                  None \<Rightarrow> revoked s
                | Some img \<Rightarrow>
                    if truthy (img_previewUrl img)
                    then revoked s @ [the (img_previewUrl img)] else revoked s)
      in s\<lparr>images := filter (\<lambda>img. img_id img \<noteq> imageId) (images s),
           loadingImages := filter (\<lambda>img. le_id img \<noteq> imageId) (loadingImages s),
           errorImages := (errorImages s)(imageId := None),
           revoked := rv\<rparr>)"

definition handleClearAll :: "store \<Rightarrow> store" where
  "handleClearAll s =
     s\<lparr>images := [], loadingImages := [], errorImages := Map.empty,
       revoked := revoked s
         @ map (\<lambda>img. the (img_previewUrl img))
               (filter (\<lambda>img. truthy (img_previewUrl img)) (images s))
         @ map (\<lambda>img. the (le_previewUrl img))
               (filter (\<lambda>img. truthy (le_previewUrl img)) (loadingImages s))\<rparr>"

text \<open>How often a preview URL has been revoked.\<close>

definition times_revoked :: "string \<Rightarrow> store \<Rightarrow> nat" where
  "times_revoked url s = count_list (revoked s) url"

text \<open>An upload of one file, for the examples: its loading entry, and the data of a result.\<close>

definition example_file :: File where
  "example_file = \<lparr>file_name = ''cat.png'', file_type = ''image/png'', file_size = 1024\<rparr>"

definition example_entries :: "loadingEntry list" where
  "example_entries = make_loadingEntries [example_file] [''img_1''] [Some ''blob:1''] 0"

definition example_data :: analysis_data where
  "example_data = \<lparr>tags = [(''cat'', 9 / 10)], processing_time = 3 / 2, image_size = [640, 480],
                    timestamp = ''2024-01-01T00:00:00'', model_info = ''BLIP''\<rparr>"

definition loading_store :: store where
  "loading_store = add_loadingEntries example_entries empty_store"

section \<open>Properties of the retry wrapper\<close>

lemma retryable_not_client_error: "retryable_failure e \<Longrightarrow> \<not> client_error e"
  by (auto simp: retryable_failure_def client_error_def split: option.splits)

lemma retryable_isRetryableError: "retryable_failure e \<Longrightarrow> isRetryableError (parseError e)"
  by (auto simp: retryable_failure_def isRetryableError_def parseError_def split: option.splits)

lemma backoff_step:
  "lo < hi \<Longrightarrow> backoff d lo hi = [Call lo, Sleep (d * 2 ^ lo)] @ backoff d (Suc lo) hi"
  by (simp add: backoff_def upt_conv_Cons)

lemma backoff_empty: "backoff d hi hi = []"
  by (simp add: backoff_def)

text \<open>
  When every call fails with a failure that is not a client error, the loop runs from any
  attempt up to the last one, sleeping between two calls, and throws the last error.
\<close>

lemma withRetry_loop_exhausts:
  assumes all: "\<forall>k\<le>m. fn k = Rejected (errs k) \<and> retryable_failure (errs k)"
  shows "attempt \<le> m \<Longrightarrow>
         withRetry_loop fn m d attempt le acts =
           (Thrown (Some (errs m)), acts @ backoff d attempt m @ [Call m])"
proof (induction "m - attempt" arbitrary: attempt le acts)
  case 0
  then have eq: "attempt = m" by simp
  from all have "fn m = Rejected (errs m)" and "\<not> client_error (errs m)"
    by (simp_all add: retryable_not_client_error)
  then show ?case
    unfolding eq by (subst withRetry_loop.simps) (simp add: backoff_empty)
next
  case (Suc n)
  then have lt: "attempt < m" by simp
  with all have rej: "fn attempt = Rejected (errs attempt)"
    and nc: "\<not> client_error (errs attempt)"
    by (simp_all add: retryable_not_client_error)
  have "withRetry_loop fn m d attempt le acts =
          withRetry_loop fn m d (attempt + 1) (Some (errs attempt))
            (acts @ [Call attempt, Sleep (d * 2 ^ attempt)])"
    using lt rej nc by (subst withRetry_loop.simps) simp
  also have "\<dots> = (Thrown (Some (errs m)),
      (acts @ [Call attempt, Sleep (d * 2 ^ attempt)]) @ backoff d (attempt + 1) m @ [Call m])"
    using Suc(2) lt by (intro Suc(1)) auto
  finally show ?case using lt by (simp add: backoff_step)
qed

text \<open>
  C5. When every attempt fails with a retryable failure (no response, status 429, or a
  status of 500 and above), \<^verbatim>\<open>withRetry\<close> with its default parameters makes exactly
  four calls, one after the other, sleeps \<open>1000 * 2\<^sup>k\<close> milliseconds after failed call
  \<open>k\<close> (\<open>k = 0, 1, 2\<close>) and then throws the error of the last call; that error is
  classified as retryable, and \<^verbatim>\<open>analyzeImage\<close> returns it as the failure of the item.
\<close>

theorem withRetry_exhausts_retryable:
  assumes "\<forall>k\<le>maxRetries_default. fn k = Rejected (errs k) \<and> retryable_failure (errs k)"
  shows "withRetry fn maxRetries_default retryDelay_default =
           (Thrown (Some (errs 3)),
            [Call 0, Sleep 1000, Call 1, Sleep 2000, Call 2, Sleep 4000, Call 3])
         \<and> isRetryableError (parseError (errs 3))
         \<and> analyzeImage fn =
           (Fulfilled (Failure (message (parseError (errs 3))) (code (parseError (errs 3)))
                         (details (parseError (errs 3)))),
            [Call 0, Sleep 1000, Call 1, Sleep 2000, Call 2, Sleep 4000, Call 3])"
proof -
  have w: "withRetry fn maxRetries_default retryDelay_default =
      (Thrown (Some (errs maxRetries_default)),
       [] @ backoff retryDelay_default 0 maxRetries_default @ [Call maxRetries_default])"
    unfolding withRetry_def using assms by (intro withRetry_loop_exhausts) auto
  have b: "backoff 1000 0 3 = [Call 0, Sleep 1000, Call 1, Sleep 2000, Call 2, Sleep 4000]"
    by (simp add: backoff_def upt_rec)
  have w': "withRetry fn maxRetries_default retryDelay_default = (Thrown (Some (errs 3)),
            [Call 0, Sleep 1000, Call 1, Sleep 2000, Call 2, Sleep 4000, Call 3])"
    using w b by (simp add: maxRetries_default_def retryDelay_default_def)
  have r: "isRetryableError (parseError (errs 3))"
    using assms by (intro retryable_isRetryableError) (simp add: maxRetries_default_def)
  show ?thesis using w' r by (simp add: analyzeImage_def Let_def)
qed

theorem withRetry_exhausts_retryable_witness:
  "retryable_failure \<lparr>response = Some \<lparr>status = 503, data = None\<rparr>\<rparr>
   \<and> withRetry (\<lambda>k. Rejected \<lparr>response = Some \<lparr>status = 503, data = None\<rparr>\<rparr> :: unit attempt_outcome)
        maxRetries_default retryDelay_default =
       (Thrown (Some \<lparr>response = Some \<lparr>status = 503, data = None\<rparr>\<rparr>),
        [Call 0, Sleep 1000, Call 1, Sleep 2000, Call 2, Sleep 4000, Call 3])"
proof -
  have r: "retryable_failure \<lparr>response = Some \<lparr>status = 503, data = None\<rparr>\<rparr>"
    by (simp add: retryable_failure_def)
  then have h: "\<forall>k\<le>maxRetries_default.
      (\<lambda>k. Rejected \<lparr>response = Some \<lparr>status = 503, data = None\<rparr>\<rparr> :: unit attempt_outcome) k
        = Rejected ((\<lambda>k. \<lparr>response = Some \<lparr>status = 503, data = None\<rparr>\<rparr>) k)
      \<and> retryable_failure ((\<lambda>k. \<lparr>response = Some \<lparr>status = 503, data = None\<rparr>\<rparr>) k)"
    by simp
  show ?thesis using r withRetry_exhausts_retryable [OF h] by simp
qed

text \<open>
  C6. When the first attempt fails with a response status in \<open>[400, 500)\<close> other than 429,
  \<^verbatim>\<open>withRetry\<close> (whatever its parameters) makes exactly one call, sleeps not at all and
  throws that error at once; the error is classified as not retryable, and
  \<^verbatim>\<open>analyzeImage\<close> returns it as the failure of the item.
\<close>

theorem withRetry_client_error_once:
  assumes "fn 0 = Rejected e" and "response e = Some r"
    and "400 \<le> status r" and "status r < 500" and "status r \<noteq> 429"
  shows "withRetry fn maxRetries baseDelay = (Thrown (Some e), [Call 0])
         \<and> \<not> isRetryableError (parseError e)
         \<and> analyzeImage fn =
             (Fulfilled (Failure (message (parseError e)) (code (parseError e)) (details (parseError e))),
              [Call 0])"
proof -
  have c: "client_error e" using assms by (simp add: client_error_def)
  have w: "withRetry fn m d = (Thrown (Some e), [Call 0])" for m d
    unfolding withRetry_def using assms(1) c by (subst withRetry_loop.simps) simp
  have n: "\<not> isRetryableError (parseError e)"
    using assms by (auto simp: isRetryableError_def parseError_def split: option.splits)
  show ?thesis using w n by (simp add: analyzeImage_def Let_def)
qed

theorem withRetry_client_error_once_witness:
  "withRetry (\<lambda>k. if k = 0 then Rejected \<lparr>response = Some \<lparr>status = 422, data = None\<rparr>\<rparr>
                   else Resolved ()) maxRetries_default retryDelay_default
     = (Thrown (Some \<lparr>response = Some \<lparr>status = 422, data = None\<rparr>\<rparr>), [Call 0])
   \<and> \<not> isRetryableError (parseError \<lparr>response = Some \<lparr>status = 422, data = None\<rparr>\<rparr>)"
  using withRetry_client_error_once
    [of "\<lambda>k. if k = 0 then Rejected \<lparr>response = Some \<lparr>status = 422, data = None\<rparr>\<rparr> else Resolved ()"
        "\<lparr>response = Some \<lparr>status = 422, data = None\<rparr>\<rparr>" "\<lparr>status = 422, data = None\<rparr>"
        maxRetries_default retryDelay_default]
  by simp

section \<open>Properties of the file validation\<close>

lemma trim_Nil: "trim [] = []"
  by (simp add: trim_def)

lemmas string_eval = toLowerCase_def toLowerCase_char_def char_of_def bit_Suc_0_iff
  trim_def white_space_def allowedTypes_def

text \<open>
  C10. \<^verbatim>\<open>validateFile\<close> is a total function of the file. Its \<^verbatim>\<open>valid\<close> is true
  exactly when its list of errors is empty, which is the case if and only if the MIME type,
  in lower case, is one of the four allowed ones, the size is at most \<open>10 * 1024 * 1024\<close>
  bytes and the name is not empty after trimming. Every violated condition adds its own
  entry to the errors, and nothing else does.
\<close>

theorem validateFile_valid_iff:
  "valid (validateFile file) = (verrors (validateFile file) = [])
   \<and> valid (validateFile file) = (type_allowed file \<and> size_allowed file \<and> name_allowed file)
   \<and> length (verrors (validateFile file)) = violations file
   \<and> ((''Unsupported file type: '' @ file_type file @ ''. Use JPEG, PNG, or WebP.'')
          \<in> set (verrors (validateFile file))) = (\<not> type_allowed file)
   \<and> ((''File too large: '' @ toFixed1_MB (file_size file) @ ''MB. Maximum size is 10MB.'')
          \<in> set (verrors (validateFile file))) = (\<not> size_allowed file)
   \<and> (''File must have a valid name.'' \<in> set (verrors (validateFile file))) = (\<not> name_allowed file)"
proof -
  have n: "(file_name file = [] \<or> trim (file_name file) = []) = (\<not> name_allowed file)"
    using trim_Nil by (auto simp: name_allowed_def)
  have s: "(file_size file > maxSize) = (\<not> size_allowed file)"
    by (auto simp: size_allowed_def maxSize_def)
  have t: "(toLowerCase (file_type file) \<notin> set allowedTypes) = (\<not> type_allowed file)"
    by (simp add: type_allowed_def)
  show ?thesis
    unfolding validateFile_def Let_def n s t violations_def
    by simp
qed

theorem validateFile_valid_iff_witness:
  "valid (validateFile \<lparr>file_name = '' cat.PNG '', file_type = ''IMAGE/PNG'', file_size = 10485760\<rparr>)
   \<and> verrors (validateFile \<lparr>file_name = '' cat.PNG '', file_type = ''IMAGE/PNG'', file_size = 10485760\<rparr>) = []
   \<and> violations \<lparr>file_name = '' cat.PNG '', file_type = ''IMAGE/PNG'', file_size = 10485760\<rparr> = 0"
proof -
  let ?F = "\<lparr>file_name = '' cat.PNG '', file_type = ''IMAGE/PNG'', file_size = 10485760\<rparr>"
  have a: "type_allowed ?F"
    by (simp add: type_allowed_def string_eval)
  have b: "size_allowed ?F"
    by (simp add: size_allowed_def)
  have c: "name_allowed ?F"
    by (simp add: name_allowed_def string_eval)
  note th = validateFile_valid_iff [of ?F]
  from th have v: "valid (validateFile ?F) = (type_allowed ?F \<and> size_allowed ?F \<and> name_allowed ?F)"
    by (elim conjE)
  from th have e: "valid (validateFile ?F) = (verrors (validateFile ?F) = [])"
    by (elim conjE)
  have n: "violations ?F = 0"
    unfolding violations_def using a b c by simp
  from v a b c have "valid (validateFile ?F)" by blast
  with e n show ?thesis by blast
qed

text \<open>A file that violates all three conditions gets the three messages, in this order.\<close>

lemma validateFile_rejects_all_three:
  "verrors (validateFile \<lparr>file_name = ''  '', file_type = ''image/gif'', file_size = 11000000\<rparr>)
       = [''Unsupported file type: image/gif. Use JPEG, PNG, or WebP.'',
          ''File too large: 10.5MB. Maximum size is 10MB.'',
          ''File must have a valid name.'']"
  by (simp add: validateFile_def string_eval maxSize_def toFixed1_MB_def show_nat.simps digit_char_def)

section \<open>Properties of the batch run\<close>

lemma chunks_from_beyond: "length fs \<le> i \<Longrightarrow> chunks_from i fs = []"
  by (subst chunks_from.simps) simp

lemma chunks_from_within:
  "i < length fs \<Longrightarrow>
   chunks_from i fs = take CONCURRENT_LIMIT (drop i fs) # chunks_from (i + CONCURRENT_LIMIT) fs"
  by (subst chunks_from.simps) simp

lemma start_chunk_done:
  "chunks s = chunks_from (started s) (files s) \<Longrightarrow> length (files s) \<le> started s \<Longrightarrow>
   start_chunk s = s"
  by (simp add: start_chunk_def chunks_from_beyond)

lemma start_chunk_fields [simp]:
  "files (start_chunk s) = files s"
  "completed (start_chunk s) = completed s"
  "results (start_chunk s) = results s"
  "errors (start_chunk s) = errors s"
  by (simp_all add: start_chunk_def Let_def split: list.splits)

lemma start_chunk_more:
  assumes c: "chunks s = chunks_from (started s) (files s)"
    and lt: "started s < length (files s)"
  shows "started (start_chunk s) = min (length (files s)) (started s + CONCURRENT_LIMIT)"
    and "chunks (start_chunk s) = chunks_from (started (start_chunk s)) (files s)"
    and "map fst (inflight (start_chunk s)) = [started s ..< started (start_chunk s)]"
    and "trace (start_chunk s) = trace s @ map (\<lambda>(i, f). Started i f) (inflight (start_chunk s))"
proof -
  let ?chunk = "take CONCURRENT_LIMIT (drop (started s) (files s))"
  have ch: "chunks s = ?chunk # chunks_from (started s + CONCURRENT_LIMIT) (files s)"
    using c lt by (simp add: chunks_from_within)
  have len: "started s + length ?chunk = min (length (files s)) (started s + CONCURRENT_LIMIT)"
    using lt by (auto simp: min_def)
  have st0: "started (start_chunk s) = started s + length ?chunk"
    by (simp add: start_chunk_def ch Let_def del: length_take)
  show st: "started (start_chunk s) = min (length (files s)) (started s + CONCURRENT_LIMIT)"
    using st0 len by simp
  have "chunks_from (started s + CONCURRENT_LIMIT) (files s)
          = chunks_from (min (length (files s)) (started s + CONCURRENT_LIMIT)) (files s)"
    by (cases "started s + CONCURRENT_LIMIT \<le> length (files s)")
       (simp_all add: min_def chunks_from_beyond)
  then show "chunks (start_chunk s) = chunks_from (started (start_chunk s)) (files s)"
    unfolding st by (simp add: start_chunk_def ch Let_def)
  have "map fst (inflight (start_chunk s)) = [started s ..< started s + length ?chunk]"
    by (simp add: start_chunk_def ch Let_def del: length_take)
  then show "map fst (inflight (start_chunk s)) = [started s ..< started (start_chunk s)]"
    using st0 by simp
  show "trace (start_chunk s) = trace s @ map (\<lambda>(i, f). Started i f) (inflight (start_chunk s))"
    by (simp add: start_chunk_def ch Let_def)
qed

lemma settle_fields [simp]:
  "files (settle i f out s) = files s"
  "chunks (settle i f out s) = chunks s"
  "started (settle i f out s) = started s"
  "inflight (settle i f out s) = inflight s"
  "completed (settle i f out s) = completed s + 1"
  by (simp_all add: settle_def Let_def split: settled.splits analysis.splits)

lemma length_filter_key:
  "distinct (map fst xs) \<Longrightarrow> map_of xs i = Some f \<Longrightarrow>
   Suc (length (filter (\<lambda>p. fst p \<noteq> i) xs)) = length xs"
proof (induction xs)
  case Nil
  then show ?case by simp
next
  case (Cons x xs)
  show ?case
  proof (cases "fst x = i")
    case True
    with Cons.prems have "i \<notin> fst ` set xs" by auto
    then have "filter (\<lambda>p. fst p \<noteq> i) xs = xs"
      by (auto simp: filter_id_conv)
    with True show ?thesis by simp
  next
    case False
    with Cons show ?thesis by (cases x) auto
  qed
qed

lemma sched_inv_begin: "sched_inv (begin_batch fs)"
proof (cases "fs = []")
  case True
  then show ?thesis
    by (simp add: begin_batch_def sched_inv_def start_chunk_def chunks_from_beyond)
next
  case False
  let ?s0 = "\<lparr>files = fs, chunks = chunks_from 0 fs, started = 0, inflight = [],
                  completed = 0, results = [], errors = [], trace = []\<rparr> :: 'a batch"
  have c: "chunks ?s0 = chunks_from (started ?s0) (files ?s0)" by simp
  have lt: "started ?s0 < length (files ?s0)" using False by simp
  note m = start_chunk_more [OF c lt]
  let ?t = "start_chunk ?s0"
  have l: "length (inflight ?t) = started ?t"
    using arg_cong [OF m(3), of length] by simp
  have d: "distinct (map fst (inflight ?t))"
    unfolding m(3) by simp
  have t1: "chunks ?t = chunks_from (started ?t) (files ?t)"
    using m(2) by simp
  have t2: "completed ?t + length (inflight ?t) = started ?t"
    using l by simp
  have t3: "started ?t = min (length (files ?t))
                 (CONCURRENT_LIMIT * (completed ?t div CONCURRENT_LIMIT) + CONCURRENT_LIMIT)"
    using m(1) by simp
  show ?thesis
    unfolding begin_batch_def sched_inv_def
    using t1 t2 t3 d by blast
qed

lemma limit_same:
  assumes "(c::nat) + 1 < st" and "st = min n (3 * (c div 3) + 3)"
  shows "st = min n (3 * (Suc c div 3) + 3)"
proof -
  have "st \<le> 3 * (c div 3) + 3" by (subst assms(2)) (rule min.cobounded2)
  with assms(1) have "c + 1 < 3 * (c div 3) + 3" by (rule less_le_trans)
  then have "Suc c div 3 = c div 3" by presburger
  with assms(2) show ?thesis by simp
qed

lemma limit_last:
  assumes "(c::nat) + 1 = st" and "st = min n (3 * (c div 3) + 3)" and "\<not> st < n"
  shows "st = min n (3 * (Suc c div 3) + 3)"
proof -
  have "st \<le> n" by (subst assms(2)) (rule min.cobounded1)
  with assms(3) have e: "n = Suc c" using assms(1) by simp
  have "Suc c \<le> 3 * (Suc c div 3) + 3" by presburger
  with e assms(1) show ?thesis by (simp add: min_absorb1)
qed

lemma limit_next:
  assumes "(c::nat) + 1 = st" and "st = min n (3 * (c div 3) + 3)" and "st < n"
  shows "min n (st + 3) = min n (3 * (Suc c div 3) + 3)"
proof -
  have "st = 3 * (c div 3) + 3"
    using assms(2) assms(3) by (metis min_def nat_less_le)
  with assms(1) have "Suc c = 3 * (c div 3) + 3" by simp
  then have "3 * (Suc c div 3) = Suc c" by presburger
  with assms(1) show ?thesis by simp
qed

lemma sched_inv_step:
  assumes inv: "sched_inv s"
  shows "sched_inv (step s e)"
proof (cases e)
  case (UploadProgress i p)
  then show ?thesis using inv by (simp add: sched_inv_def split: option.splits)
next
  case (Settled i out)
  show ?thesis
  proof (cases "map_of (inflight s) i")
    case None
    with Settled inv show ?thesis by simp
  next
    case (Some f)
    let ?s'' = "(settle i f out s)\<lparr>inflight := filter (\<lambda>p. fst p \<noteq> i) (inflight s)\<rparr>"
    have st: "step s e = (if inflight ?s'' = [] then start_chunk ?s'' else ?s'')"
      using Settled Some by (simp add: Let_def)
    from inv have c: "chunks s = chunks_from (started s) (files s)"
      and k: "completed s + length (inflight s) = started s"
      and m: "started s = min (length (files s)) (3 * (completed s div 3) + 3)"
      and d: "distinct (map fst (inflight s))"
      by (simp_all add: sched_inv_def CONCURRENT_LIMIT_def)
    have len: "Suc (length (inflight ?s'')) = length (inflight s)"
      using length_filter_key [OF d Some] by simp
    have d'': "distinct (map fst (inflight ?s''))"
      using d by (simp add: distinct_map_filter)
    have c'': "chunks ?s'' = chunks_from (started ?s'') (files ?s'')"
      using c by simp
    have k'': "completed ?s'' + length (inflight ?s'') = started ?s''"
      using k len by simp
    show ?thesis
    proof (cases "inflight ?s'' = []")
      case False
      then have "completed s + 1 < started s" using k len by (cases "inflight ?s''") auto
      from limit_same [OF this m]
      have m'': "started ?s'' = min (length (files ?s'')) (3 * (completed ?s'' div 3) + 3)"
        by simp
      have "sched_inv ?s''"
        unfolding sched_inv_def CONCURRENT_LIMIT_def
        using c'' k'' m'' d'' by blast
      with False st show ?thesis by simp
    next
      case True
      then have all: "completed s + 1 = started s" using len k by simp
      show ?thesis
      proof (cases "started s < length (files s)")
        case False
        then have same: "start_chunk ?s'' = ?s''"
          using c by (intro start_chunk_done) simp_all
        from limit_last [OF all m False]
        have m'': "started ?s'' = min (length (files ?s'')) (3 * (completed ?s'' div 3) + 3)"
          by simp
        have "sched_inv ?s''"
          unfolding sched_inv_def CONCURRENT_LIMIT_def
          using c'' k'' m'' d'' by blast
        with same st True show ?thesis by simp
      next
        case lt: True
        have lt2: "started ?s'' < length (files ?s'')" using lt by simp
        note sm = start_chunk_more [OF c'' lt2]
        let ?t = "start_chunk ?s''"
        have s1: "started ?t = min (length (files s)) (started s + 3)"
          using sm(1) by (simp add: CONCURRENT_LIMIT_def)
        have ge: "started s \<le> started ?t" using s1 lt by simp
        have l: "length (inflight ?t) = started ?t - started s"
          using arg_cong [OF sm(3), of length] by simp
        have t1: "chunks ?t = chunks_from (started ?t) (files ?t)"
          using sm(2) by simp
        have t2: "completed ?t + length (inflight ?t) = started ?t"
          using l all ge by simp
        have t3: "started ?t = min (length (files ?t)) (3 * (completed ?t div 3) + 3)"
          using limit_next [OF all m lt] s1 by simp
        have t4: "distinct (map fst (inflight ?t))"
          unfolding sm(3) by simp
        have "sched_inv ?t"
          unfolding sched_inv_def CONCURRENT_LIMIT_def
          using t1 t2 t3 t4 by blast
        with st True show ?thesis by simp
      qed
    qed
  qed
qed

lemma sched_inv_foldl: "sched_inv s \<Longrightarrow> sched_inv (foldl step s evs)"
  by (induction evs arbitrary: s) (simp_all add: sched_inv_step)

lemma sched_inv_analyzeImages: "sched_inv (analyzeImages fs evs)"
  unfolding analyzeImages_def by (intro sched_inv_foldl sched_inv_begin)

lemma completed_items_append [simp]:
  "completed_items (tr @ tr') = completed_items tr @ completed_items tr'"
  by (simp add: completed_items_def)

lemma started_items_append [simp]:
  "started_items (tr @ tr') = started_items tr @ started_items tr'"
  by (simp add: started_items_def)

lemma progress_values_append [simp]:
  "progress_values (tr @ tr') = progress_values tr @ progress_values tr'"
  by (simp add: progress_values_def)

lemma completion_progress_values_append [simp]:
  "completion_progress_values (tr @ tr') =
     completion_progress_values tr @ completion_progress_values tr'"
  by (simp add: completion_progress_values_def)

lemma seen_counts_append [simp]:
  "seen_counts (tr @ tr') = seen_counts tr @ seen_counts tr'"
  by (simp add: seen_counts_def)

lemma trace_readings_Nil [simp]:
  "completed_items [] = []" "started_items [] = []"
  "progress_values [] = []" "completion_progress_values [] = []" "seen_counts [] = []"
  by (simp_all add: completed_items_def started_items_def progress_values_def
        completion_progress_values_def seen_counts_def)

lemma readings_of_Started [simp]:
  "completed_items (map (\<lambda>(i, f). Started i f) xs) = []"
  "started_items (map (\<lambda>(i, f). Started i f) xs) = map fst xs"
  "progress_values (map (\<lambda>(i, f). Started i f) xs) = []"
  "completion_progress_values (map (\<lambda>(i, f). Started i f) xs) = []"
  "seen_counts (map (\<lambda>(i, f). Started i f) xs) = []"
  "list_all consistent_callback (map (\<lambda>(i, f). Started i f) xs)"
  by (induction xs)
     (auto simp: completed_items_def started_items_def progress_values_def
        completion_progress_values_def seen_counts_def)

lemma settle_readings:
  "completed_items (trace (settle i f out s)) = completed_items (trace s) @ [i]"
  "started_items (trace (settle i f out s)) = started_items (trace s)"
  "seen_counts (trace (settle i f out s)) = seen_counts (trace s) @ [completed s + 1]"
  "length (results (settle i f out s)) + length (errors (settle i f out s))
     = length (results s) + length (errors s) + 1"
  by (simp_all add: settle_def Let_def completed_items_def started_items_def seen_counts_def
        split: settled.splits analysis.splits)

lemma settle_consistent:
  "completed s = length (results s) + length (errors s) \<Longrightarrow>
   list_all consistent_callback (trace s) \<Longrightarrow>
   list_all consistent_callback (trace (settle i f out s))"
  by (simp add: settle_def Let_def split: settled.splits analysis.splits)

lemma upt_join: "a \<le> b \<Longrightarrow> b \<le> c \<Longrightarrow> [a..<b] @ [b..<c] = [a..<c]"
  by (metis le_Suc_ex upt_add_eq_append)

lemma start_chunk_callback_inv:
  assumes inv: "callback_inv s" and idle: "inflight s = []"
    and c: "chunks s = chunks_from (started s) (files s)"
  shows "callback_inv (start_chunk s)"
proof (cases "started s < length (files s)")
  case False
  then have "start_chunk s = s" using c by (intro start_chunk_done) simp_all
  with inv show ?thesis by simp
next
  case True
  note sm = start_chunk_more [OF c True]
  let ?t = "start_chunk s"
  have ge: "started s \<le> started ?t"
    using sm(1) True by (simp add: CONCURRENT_LIMIT_def)
  have img: "fst ` set (inflight ?t) = {started s..<started ?t}"
    using arg_cong [OF sm(3), of set] by simp
  from inv idle have ci: "set (completed_items (trace s)) = {0..<started s}"
    and dc: "distinct (completed_items (trace s))"
    and cnt: "completed s = length (results s) + length (errors s)"
    and si: "started_items (trace s) = [0..<started s]"
    and sc: "seen_counts (trace s) = [1..<Suc (completed s)]"
    and cc: "list_all consistent_callback (trace s)"
    and lc: "length (completed_items (trace s)) = completed s"
    by (simp_all add: callback_inv_def)
  have t1: "completed ?t = length (results ?t) + length (errors ?t)"
    using cnt by simp
  have t2: "distinct (completed_items (trace ?t))"
    using dc by (simp add: sm(4))
  have t3: "set (completed_items (trace ?t)) \<inter> fst ` set (inflight ?t) = {}"
    using ci by (auto simp: sm(4) img)
  have t4: "set (completed_items (trace ?t)) \<union> fst ` set (inflight ?t) = {0..<started ?t}"
  proof -
    have "{0..<started s} \<union> {started s..<started ?t} = {0..<started ?t}"
      using ge by (simp add: ivl_disj_un_two(3))
    then show ?thesis by (simp add: sm(4) img ci)
  qed
  have t5: "started_items (trace ?t) = [0..<started ?t]"
    using si ge by (simp add: sm(4) sm(3) upt_join)
  have t6: "seen_counts (trace ?t) = [1..<Suc (completed ?t)]"
    using sc by (simp add: sm(4))
  have t7: "list_all consistent_callback (trace ?t)"
    using cc by (simp add: sm(4))
  have t8: "length (completed_items (trace ?t)) = completed ?t"
    using lc by (simp add: sm(4))
  show ?thesis
    unfolding callback_inv_def using t1 t2 t3 t4 t5 t6 t7 t8 by blast
qed

lemma callback_inv_begin: "callback_inv (begin_batch fs)"
proof -
  let ?s0 = "\<lparr>files = fs, chunks = chunks_from 0 fs, started = 0, inflight = [],
                  completed = 0, results = [], errors = [], trace = []\<rparr> :: 'a batch"
  have "callback_inv ?s0" by (simp add: callback_inv_def)
  then show ?thesis
    unfolding begin_batch_def by (rule start_chunk_callback_inv) simp_all
qed

lemma fst_image_filter_key:
  "fst ` set (filter (\<lambda>p. fst p \<noteq> i) xs) = fst ` set xs - {i}"
  by auto

lemma settled_callback_inv:
  assumes inv: "callback_inv s" and f: "map_of (inflight s) i = Some f"
  shows "callback_inv ((settle i f out s)\<lparr>inflight := filter (\<lambda>p. fst p \<noteq> i) (inflight s)\<rparr>)"
proof -
  let ?t = "(settle i f out s)\<lparr>inflight := filter (\<lambda>p. fst p \<noteq> i) (inflight s)\<rparr>"
  from f have mem: "i \<in> fst ` set (inflight s)"
    by (metis map_of_eq_None_iff option.distinct(1))
  from inv have cnt: "completed s = length (results s) + length (errors s)"
    and dc: "distinct (completed_items (trace s))"
    and dj: "set (completed_items (trace s)) \<inter> fst ` set (inflight s) = {}"
    and un: "set (completed_items (trace s)) \<union> fst ` set (inflight s) = {0..<started s}"
    and si: "started_items (trace s) = [0..<started s]"
    and sc: "seen_counts (trace s) = [1..<Suc (completed s)]"
    and cc: "list_all consistent_callback (trace s)"
    and lc: "length (completed_items (trace s)) = completed s"
    by (simp_all add: callback_inv_def)
  have t1: "completed ?t = length (results ?t) + length (errors ?t)"
    using cnt settle_readings(4) [of i f out s] by simp
  have t2: "distinct (completed_items (trace ?t))"
    using dc dj mem by (auto simp: settle_readings)
  have t3: "set (completed_items (trace ?t)) \<inter> fst ` set (inflight ?t) = {}"
    using dj by (auto simp: settle_readings)
  have t4: "set (completed_items (trace ?t)) \<union> fst ` set (inflight ?t) = {0..<started ?t}"
    using un mem by (auto simp: settle_readings)
  have t5: "started_items (trace ?t) = [0..<started ?t]"
    using si by (simp add: settle_readings)
  have t6: "seen_counts (trace ?t) = [1..<Suc (completed ?t)]"
    using sc by (simp add: settle_readings)
  have t7: "list_all consistent_callback (trace ?t)"
    using settle_consistent [OF cnt cc] by simp
  have t8: "length (completed_items (trace ?t)) = completed ?t"
    using lc by (simp add: settle_readings)
  show ?thesis
    unfolding callback_inv_def using t1 t2 t3 t4 t5 t6 t7 t8 by blast
qed

lemma readings_of_Progress [simp]:
  "completed_items [Progress src v] = []"
  "started_items [Progress src v] = []"
  "seen_counts [Progress src v] = []"
  by (simp_all add: completed_items_def started_items_def seen_counts_def)

lemma callback_inv_progress:
  "callback_inv s \<Longrightarrow> callback_inv (s\<lparr>trace := trace s @ [Progress src v]\<rparr>)"
  unfolding callback_inv_def by simp

lemma callback_inv_step:
  assumes sch: "sched_inv s" and inv: "callback_inv s"
  shows "callback_inv (step s e)"
proof (cases e)
  case (UploadProgress i p)
  show ?thesis
  proof (cases "map_of (inflight s) i")
    case None
    with UploadProgress inv show ?thesis by simp
  next
    case (Some f)
    with UploadProgress callback_inv_progress [OF inv] show ?thesis by simp
  qed
next
  case (Settled i out)
  show ?thesis
  proof (cases "map_of (inflight s) i")
    case None
    with Settled inv show ?thesis by simp
  next
    case (Some f)
    let ?t = "(settle i f out s)\<lparr>inflight := filter (\<lambda>p. fst p \<noteq> i) (inflight s)\<rparr>"
    have st: "step s e = (if inflight ?t = [] then start_chunk ?t else ?t)"
      using Settled Some by (simp add: Let_def)
    have ti: "callback_inv ?t" using inv Some by (rule settled_callback_inv)
    have c: "chunks ?t = chunks_from (started ?t) (files ?t)"
      using sch by (simp add: sched_inv_def)
    show ?thesis
    proof (cases "inflight ?t = []")
      case True
      with ti c have "callback_inv (start_chunk ?t)" by (intro start_chunk_callback_inv)
      with st True show ?thesis by simp
    next
      case False
      with st ti show ?thesis by simp
    qed
  qed
qed

lemma both_inv_foldl:
  "sched_inv s \<Longrightarrow> callback_inv s \<Longrightarrow> callback_inv (foldl step s evs)"
  by (induction evs arbitrary: s) (simp_all add: sched_inv_step callback_inv_step)

lemma callback_inv_analyzeImages: "callback_inv (analyzeImages fs evs)"
  unfolding analyzeImages_def by (intro both_inv_foldl sched_inv_begin callback_inv_begin)

lemma files_step [simp]: "files (step s e) = files s"
  by (cases e) (simp_all add: Let_def split: option.splits)

lemma files_foldl: "files (foldl step s evs) = files s"
  by (induction evs arbitrary: s) simp_all

lemma files_analyzeImages [simp]: "files (analyzeImages fs evs) = fs"
  by (simp add: analyzeImages_def files_foldl begin_batch_def)

text \<open>
  C7. Whatever the files and whatever events have happened, at most 3
  (\<^verbatim>\<open>CONCURRENT_LIMIT\<close>) calls of \<^verbatim>\<open>analyzeImage\<close> are in flight, and the number
  in flight is the number of calls started minus the number of items reported complete.
\<close>

theorem analyzeImages_inflight_bound:
  "length (inflight (analyzeImages fs evs)) \<le> 3
   \<and> length (inflight (analyzeImages fs evs)) \<le> CONCURRENT_LIMIT
   \<and> length (started_items (trace (analyzeImages fs evs)))
       - length (completed_items (trace (analyzeImages fs evs)))
       = length (inflight (analyzeImages fs evs))"
proof -
  let ?s = "analyzeImages fs evs"
  have sch: "sched_inv ?s" by (rule sched_inv_analyzeImages)
  have cb: "callback_inv ?s" by (rule callback_inv_analyzeImages)
  from sch have k: "completed ?s + length (inflight ?s) = started ?s"
    and m: "started ?s = min (length (files ?s)) (3 * (completed ?s div 3) + 3)"
    by (simp_all add: sched_inv_def CONCURRENT_LIMIT_def)
  have "started ?s \<le> 3 * (completed ?s div 3) + 3"
    by (subst m) (rule min.cobounded2)
  with k have "completed ?s + length (inflight ?s) \<le> 3 * (completed ?s div 3) + 3" by simp
  then have b: "length (inflight ?s) \<le> 3" by presburger
  from cb have "length (started_items (trace ?s)) = started ?s"
    and "length (completed_items (trace ?s)) = completed ?s"
    by (simp_all add: callback_inv_def)
  with k have "length (started_items (trace ?s)) - length (completed_items (trace ?s))
      = length (inflight ?s)" by simp
  with b show ?thesis by (simp add: CONCURRENT_LIMIT_def)
qed



text \<open>
  C8. After any events, \<^verbatim>\<open>completed\<close> equals the number of results plus the number of
  errors; and when the call returns, its summary has \<^verbatim>\<open>total\<close> equal to the number
  of files and \<^verbatim>\<open>successful + failed\<close> equal to \<^verbatim>\<open>completed\<close>.
\<close>

theorem analyzeImages_counts:
  "completed (analyzeImages fs evs)
     = length (results (analyzeImages fs evs)) + length (errors (analyzeImages fs evs))
   \<and> (\<forall>r. returned (analyzeImages fs evs) = Some r \<longrightarrow>
          total (res_summary r) = length fs
          \<and> successful (res_summary r) + failed (res_summary r) = completed (analyzeImages fs evs))"
proof -
  let ?s = "analyzeImages fs evs"
  have "callback_inv ?s" by (rule callback_inv_analyzeImages)
  then have c: "completed ?s = length (results ?s) + length (errors ?s)"
    by (simp add: callback_inv_def)
  have "total (res_summary r) = length fs
        \<and> successful (res_summary r) + failed (res_summary r) = completed ?s"
    if "returned ?s = Some r" for r
    using that c by (auto simp: returned_def split: if_splits)
  with c show ?thesis by blast
qed

theorem analyzeImages_counts_witness:
  "returned (analyzeImages two_files
      [Settled 1 (Fulfilled (Failure ''Server error. Please try again later.'' ''HTTP_ERROR'' NoDetails)),
       Settled 0 (Fulfilled (Success ()))])
     = Some \<lparr>success = False,
             res_results = [ImageResult \<lparr>file_name = ''a.png'', file_type = ''image/png'', file_size = 1024\<rparr> ()],
             res_errors = [ImageError \<lparr>file_name = ''b.png'', file_type = ''image/png'', file_size = 1024\<rparr>
                             ''Server error. Please try again later.'' (Some ''HTTP_ERROR'')],
             res_summary = \<lparr>total = 2, successful = 1, failed = 1\<rparr>\<rparr>
   \<and> completed (analyzeImages two_files
      [Settled 1 (Fulfilled (Failure ''Server error. Please try again later.'' ''HTTP_ERROR'' NoDetails)),
       Settled 0 (Fulfilled (Success ()))]) = 2"
proof -
  let ?evs = "[Settled 1 (Fulfilled (Failure ''Server error. Please try again later.'' ''HTTP_ERROR'' NoDetails)),
       Settled 0 (Fulfilled (Success ()))]"
  let ?r = "\<lparr>success = False,
             res_results = [ImageResult \<lparr>file_name = ''a.png'', file_type = ''image/png'', file_size = 1024\<rparr> ()],
             res_errors = [ImageError \<lparr>file_name = ''b.png'', file_type = ''image/png'', file_size = 1024\<rparr>
                             ''Server error. Please try again later.'' (Some ''HTTP_ERROR'')],
             res_summary = \<lparr>total = 2, successful = 1, failed = 1\<rparr>\<rparr>"
  have r: "returned (analyzeImages two_files ?evs) = Some ?r"
    by code_simp
  note th = analyzeImages_counts [of two_files ?evs, THEN conjunct2, rule_format, OF r]
  from th [THEN conjunct2] have c: "completed (analyzeImages two_files ?evs) = 2" by simp
  show ?thesis by (rule conjI [OF r c])
qed



lemma overallProgress_mono: "c \<le> c' \<Longrightarrow> overallProgress c n \<le> overallProgress c' n"
  unfolding overallProgress_def Math_round_def
  by (intro floor_mono add_right_mono mult_right_mono divide_right_mono) simp_all

lemma floor_half_201: "\<lfloor>(201::rat) / 2\<rfloor> = 100"
  by (rule floor_unique) simp_all

lemma overallProgress_full: "0 < n \<Longrightarrow> overallProgress n n = 100"
  by (simp add: overallProgress_def Math_round_def floor_half_201)

lemma readings_of_single [simp]:
  "completion_progress_values [Progress FromUpload v] = []"
  "completion_progress_values [Progress FromCompletion v] = [v]"
  "completion_progress_values [ImageComplete i r c nr ne] = []"
  "progress_values [Progress src v] = [v]"
  "progress_values [ImageComplete i r c nr ne] = []"
  by (simp_all add: completion_progress_values_def progress_values_def)

lemma settle_progress:
  "completion_progress_values (trace (settle i f out s))
     = completion_progress_values (trace s)
       @ (case out of Crashed \<Rightarrow> []
          | Fulfilled r \<Rightarrow> [overallProgress (completed s + 1) (length (files s))])"
  by (simp add: settle_def Let_def completion_progress_values_def
        split: settled.splits analysis.splits)

lemma settle_trace_fulfilled:
  "progress_values (trace (settle i f (Fulfilled r) s))
     = progress_values (trace s) @ [overallProgress (completed s + 1) (length (files s))]"
  by (simp add: settle_def Let_def progress_values_def split: analysis.splits)

lemma progress_inv_settle:
  assumes "progress_inv s"
  shows "progress_inv ((settle i f out s)\<lparr>inflight := xs\<rparr>)"
proof -
  let ?n = "length (files s)"
  let ?v = "overallProgress (completed s + 1) ?n"
  from assms have so: "sorted (completion_progress_values (trace s))"
    and bd: "list_all (\<lambda>v. v \<le> overallProgress (completed s) ?n)
               (completion_progress_values (trace s))"
    by (simp_all add: progress_inv_def)
  have up: "overallProgress (completed s) ?n \<le> ?v"
    by (rule overallProgress_mono) simp
  from bd up have bd': "list_all (\<lambda>v. v \<le> ?v) (completion_progress_values (trace s))"
    by (auto simp: list_all_iff)
  show ?thesis
  proof (cases out)
    case Crashed
    then show ?thesis
      using so bd' by (simp add: progress_inv_def settle_progress)
  next
    case (Fulfilled r)
    then show ?thesis
      using so bd' by (simp add: progress_inv_def settle_progress sorted_append list_all_iff)
  qed
qed

lemma progress_inv_start_chunk:
  assumes "progress_inv s"
  shows "progress_inv (start_chunk s)"
proof (cases "chunks s")
  case Nil
  then show ?thesis using assms by (simp add: start_chunk_def)
next
  case (Cons chunk rest)
  then show ?thesis
    using assms by (simp add: start_chunk_def Let_def progress_inv_def)
qed

lemma progress_inv_step:
  assumes "progress_inv s"
  shows "progress_inv (step s e)"
proof (cases e)
  case (UploadProgress i p)
  then show ?thesis
    using assms by (simp add: progress_inv_def split: option.splits)
next
  case (Settled i out)
  show ?thesis
  proof (cases "map_of (inflight s) i")
    case None
    with Settled assms show ?thesis by simp
  next
    case (Some f)
    let ?t = "(settle i f out s)\<lparr>inflight := filter (\<lambda>p. fst p \<noteq> i) (inflight s)\<rparr>"
    have st: "step s e = (if inflight ?t = [] then start_chunk ?t else ?t)"
      using Settled Some by (simp add: Let_def)
    have t: "progress_inv ?t" using assms by (rule progress_inv_settle)
    show ?thesis
    proof (cases "inflight ?t = []")
      case True
      from t have "progress_inv (start_chunk ?t)" by (rule progress_inv_start_chunk)
      with st True show ?thesis by simp
    next
      case False
      with st t show ?thesis by simp
    qed
  qed
qed

lemma progress_inv_begin: "progress_inv (begin_batch fs)"
  unfolding begin_batch_def
  by (rule progress_inv_start_chunk) (simp add: progress_inv_def)

lemma progress_inv_foldl: "progress_inv s \<Longrightarrow> progress_inv (foldl step s evs)"
  by (induction evs arbitrary: s) (simp_all add: progress_inv_step)

lemma progress_inv_analyzeImages: "progress_inv (analyzeImages fs evs)"
  unfolding analyzeImages_def by (intro progress_inv_foldl progress_inv_begin)

lemma analyzeImages_snoc: "analyzeImages fs (evs @ [e]) = step (analyzeImages fs evs) e"
  by (simp add: analyzeImages_def)

lemma last_settlement_reports_full:
  assumes sch: "sched_inv s" and f: "map_of (inflight s) i = Some f"
    and ret: "returned (step s (Settled i (Fulfilled r))) \<noteq> None"
  shows "last (progress_values (trace (step s (Settled i (Fulfilled r))))) = 100"
proof -
  let ?e = "Settled i (Fulfilled r)"
  let ?t = "(settle i f (Fulfilled r) s)\<lparr>inflight := filter (\<lambda>p. fst p \<noteq> i) (inflight s)\<rparr>"
  have st: "step s ?e = (if inflight ?t = [] then start_chunk ?t else ?t)"
    using f by (simp add: Let_def)
  from ret have idle': "inflight (step s ?e) = []"
    by (simp add: returned_def split: if_splits)
  have idle: "inflight ?t = []"
  proof (rule ccontr)
    assume "inflight ?t \<noteq> []"
    with st idle' show False by simp
  qed
  from sch have k: "completed s + length (inflight s) = started s"
    and d: "distinct (map fst (inflight s))"
    and c: "chunks s = chunks_from (started s) (files s)"
    by (simp_all add: sched_inv_def)
  have "Suc (length (inflight ?t)) = length (inflight s)"
    using length_filter_key [OF d f] by simp
  with idle k have all: "completed s + 1 = started s" by simp
  have sch': "sched_inv (step s ?e)" using sch by (rule sched_inv_step)
  then have k': "completed (step s ?e) + length (inflight (step s ?e)) = started (step s ?e)"
    and m': "started (step s ?e) = min (length (files (step s ?e)))
               (3 * (completed (step s ?e) div 3) + 3)"
    by (simp_all add: sched_inv_def CONCURRENT_LIMIT_def)
  from k' idle' have e': "completed (step s ?e) = started (step s ?e)" by simp
  have lt: "completed (step s ?e) < 3 * (completed (step s ?e) div 3) + 3" by presburger
  have full': "started (step s ?e) = length (files s)"
  proof (rule ccontr)
    assume "started (step s ?e) \<noteq> length (files s)"
    with m' have "started (step s ?e) = 3 * (completed (step s ?e) div 3) + 3"
      by (metis files_step min_def)
    with e' lt show False by simp
  qed
  have cs: "completed (step s ?e) = completed s + 1"
    using st idle by simp
  from full' e' cs have n: "length (files s) = completed s + 1" by simp
  with all have "length (files s) \<le> started ?t" by simp
  moreover have "chunks ?t = chunks_from (started ?t) (files ?t)" using c by simp
  ultimately have "start_chunk ?t = ?t" by (intro start_chunk_done) simp_all
  with st idle have "trace (step s ?e) = trace (settle i f (Fulfilled r) s)" by simp
  then have "progress_values (trace (step s ?e))
      = progress_values (trace s) @ [overallProgress (completed s + 1) (length (files s))]"
    by (simp add: settle_trace_fulfilled)
  then show ?thesis using n by (simp add: overallProgress_full)
qed




section \<open>Properties of the application state\<close>

lemmas store_eval = example_file_def example_entries_def loading_store_def
  make_loadingEntries_def add_loadingEntries_def empty_store_def handleRemoveImage_def
  handleClearAll_def truthy_def times_revoked_def Let_def



lemma handleRemoveImage_evicts:
  "imageId \<notin> img_id ` set (images (handleRemoveImage imageId s))
   \<and> imageId \<notin> le_id ` set (loadingImages (handleRemoveImage imageId s))
   \<and> errorImages (handleRemoveImage imageId s) imageId = None"
  by (auto simp: handleRemoveImage_def Let_def)

lemma handleRemoveImage_revokes_settled:
  assumes "find (\<lambda>img. img_id img = imageId) (images s) = Some img"
    and "img_previewUrl img = Some url" and "url \<noteq> []"
  shows "revoked (handleRemoveImage imageId s) = revoked s @ [url]"
  using assms by (simp add: handleRemoveImage_def Let_def truthy_def)

lemma handleRemoveImage_unsettled_no_revoke:
  assumes "find (\<lambda>img. img_id img = imageId) (images s) = None"
  shows "revoked (handleRemoveImage imageId s) = revoked s"
  using assms by (simp add: handleRemoveImage_def Let_def)



end
